theory Spec2Isabelle
  imports Main "HOL-Library.Multiset"
begin

section \<open>Strings and the regular expressions of \<^verbatim>\<open>index.ts\<close>\<close>

text \<open>
  A JavaScript string is modelled as a \<^typ>\<open>string\<close>: one \<^typ>\<open>char\<close> per code unit,
  restricted to the code units below 256. Among these the line terminators, which the
  regular-expression dot does not match, are line feed and carriage return.
\<close>

definition slash :: char where
  "slash = CHR ''/''"

definition backslash :: char where
  "backslash = CHR 0x5C"

definition lineTerminator :: "char \<Rightarrow> bool" where
  "lineTerminator c = (c = CHR 0x0A \<or> c = CHR 0x0D)"

text \<open>
  The two regular expressions of the source, \<^verbatim>\<open>/^react(-dom)?$/\<close> and \<^verbatim>\<open>/^.*?\//\<close>, use
  four constructs: a literal, the lazy \<^verbatim>\<open>.*?\<close>, the greedy option \<^verbatim>\<open>(r)?\<close> and
  concatenation. \<open>match r s\<close> is the backtracking matcher started at the beginning of
  \<open>s\<close>: it lists what is left of \<open>s\<close> after each way of matching \<open>r\<close>, in the order in
  which the engine tries them.
\<close>

datatype regex = Lit string | AnyLazy | Opt regex | Seq regex regex

fun strip_lit :: "string \<Rightarrow> string \<Rightarrow> string option" where
  "strip_lit [] s = Some s"
| "strip_lit (c # cs) [] = None"
| "strip_lit (c # cs) (d # ds) = (if c = d then strip_lit cs ds else None)"

fun lazy_any :: "string \<Rightarrow> string list" where
  "lazy_any [] = [[]]"
| "lazy_any (c # cs) = (c # cs) # (if lineTerminator c then [] else lazy_any cs)"

fun match :: "regex \<Rightarrow> string \<Rightarrow> string list" where
  "match (Lit l) s = (case strip_lit l s of None \<Rightarrow> [] | Some r \<Rightarrow> [r])"
| "match AnyLazy s = lazy_any s"
| "match (Opt r) s = match r s @ [s]"
| "match (Seq a b) s = concat (map (match b) (match a s))"

text \<open>\<^verbatim>\<open>/^r$/.test(s)\<close>: some way of matching \<open>r\<close> consumes all of \<open>s\<close>.\<close>

definition test_anchored :: "regex \<Rightarrow> string \<Rightarrow> bool" where
  "test_anchored r s = ([] \<in> set (match r s))"

text \<open>\<^verbatim>\<open>s.replace(/^r/, '')\<close>: the first match at position 0 is removed; no match leaves \<open>s\<close>.\<close>

definition replace_anchored :: "regex \<Rightarrow> string \<Rightarrow> string" where
  "replace_anchored r s = (case match r s of [] \<Rightarrow> s | rest # _ \<Rightarrow> rest)"

text \<open>\<^verbatim>\<open>s.replaceAll(a, b)\<close> for one-character \<open>a\<close> and \<open>b\<close>.\<close>

definition replaceAll :: "char \<Rightarrow> char \<Rightarrow> string \<Rightarrow> string" where
  "replaceAll a b s = map (\<lambda>c. if c = a then b else c) s"

text \<open>\<^verbatim>\<open>s.split('/')[0]\<close>: the part of \<open>s\<close> before its first slash (all of \<open>s\<close> without one).\<close>

definition split_first :: "string \<Rightarrow> string" where
  "split_first s = takeWhile (\<lambda>c. c \<noteq> slash) s"

text \<open>\<^verbatim>\<open>/^react(-dom)?$/\<close> without its anchors, and \<^verbatim>\<open>/^.*?\//\<close> without its anchor.\<close>

definition react_filter :: regex where
  "react_filter = Seq (Lit ''react'') (Opt (Lit ''-dom''))"

definition first_segment :: regex where
  "first_segment = Seq AnyLazy (Lit [slash])"

section \<open>The react shim: \<^verbatim>\<open>onResolve\<close> and \<^verbatim>\<open>onLoad\<close>\<close>

record resolve_result =
  namespace :: string
  resolved_path :: string

text \<open>
  \<^verbatim>\<open>pluginBuild.onResolve({ filter: /^react(-dom)?$/ }, ...)\<close>: the callback runs for an import
  path the filter accepts and answers with the namespace \<^verbatim>\<open>react\<close>; \<open>None\<close> is the
  bundler's own resolution of a path the filter rejects.
\<close>

definition onResolve :: "string \<Rightarrow> resolve_result option" where
  "onResolve p =
     (if test_anchored react_filter p
      then Some \<lparr>namespace = ''react'', resolved_path = p\<rparr>
      else None)"

text \<open>
  \<^verbatim>\<open>pluginBuild.onLoad({ filter: /^react(-dom)?$/, namespace: 'react' }, ...)\<close>: the callback
  runs for a module of the namespace \<^verbatim>\<open>react\<close> whose path the filter accepts; it returns
  nothing for a path that is neither of the two names.
\<close>

definition onLoad :: "resolve_result \<Rightarrow> string option" where
  "onLoad m =
     (if namespace m = ''react'' \<and> test_anchored react_filter (resolved_path m)
      then (if resolved_path m = ''react'' then Some ''module.exports = window.React''
            else if resolved_path m = ''react-dom'' then Some ''module.exports = window.ReactDOM''
            else None)
      else None)"

text \<open>What the bundler loads for an import: the resolution, then the loader.\<close>

definition load_import :: "string \<Rightarrow> (string \<times> string) option" where
  "load_import p =
     (case onResolve p of
        None \<Rightarrow> None
      | Some m \<Rightarrow> (case onLoad m of None \<Rightarrow> None | Some c \<Rightarrow> Some (namespace m, c)))"

section \<open>Output file resolution\<close>

text \<open>
  An entry of \<^verbatim>\<open>fs.readdir(outdir, { recursive: true, withFileTypes: true })\<close>: the entry's
  name, the path of the directory that holds it, and whether it is a regular file.
\<close>

record dirent =
  file_name :: string
  file_path :: string
  isFile :: bool

record descriptor =
  server :: string
  filename :: string
  path :: string

text \<open>The first \<^verbatim>\<open>map\<close> of the source (its comment: rebase path) rewrites \<^verbatim>\<open>file.path\<close>.\<close>

definition rebase :: "dirent \<Rightarrow> dirent" where
  "rebase file =
     file\<lparr>file_path := replace_anchored first_segment (replaceAll backslash slash (file_path file))\<rparr>"

definition describe :: "string \<Rightarrow> dirent \<Rightarrow> descriptor" where
  "describe outdir file =
     \<lparr>server = split_first (file_path file),
      filename = replace_anchored first_segment (file_path file @ ''/'' @ file_name file),
      path = outdir @ ''/'' @ file_path file @ ''/'' @ file_name file\<rparr>"

definition resolve_files :: "string \<Rightarrow> dirent list \<Rightarrow> descriptor list" where
  "resolve_files outdir entries = map (describe outdir) (map rebase (filter isFile entries))"

text \<open>
  The output directory on disk is either absent or holds a list of entries. Reading an
  absent directory rejects, and the source awaits \<^verbatim>\<open>fs.readdir\<close> with no handler around it.
\<close>

datatype failure = ReaddirRejected | HookThrew

definition readdir :: "dirent list option \<Rightarrow> failure + dirent list" where
  "readdir disk = (case disk of None \<Rightarrow> Inl ReaddirRejected | Some entries \<Rightarrow> Inr entries)"

definition resolve_step :: "string \<Rightarrow> dirent list option \<Rightarrow> failure + descriptor list" where
  "resolve_step outdir disk =
     (case readdir disk of Inl e \<Rightarrow> Inl e | Inr entries \<Rightarrow> Inr (resolve_files outdir entries))"

text \<open>
  The entries \<^verbatim>\<open>readdir\<close> reports for an output directory \<open>outdir\<close> that holds exactly the
  regular files \<^verbatim>\<open>serverA/x.js\<close> and \<^verbatim>\<open>serverB/sub/y.js\<close>, on a host whose path separator
  is \<open>sep\<close>. The parent path of an entry at the top is \<open>outdir\<close> as it was given; below
  the top it is \<^verbatim>\<open>path.join\<close> of the parent's path and name, which for the plain relative
  paths considered here puts the separator between the two.
\<close>

definition join :: "char \<Rightarrow> string \<Rightarrow> string \<Rightarrow> string" where
  "join sep a b = a @ [sep] @ b"

definition two_server_tree :: "string \<Rightarrow> char \<Rightarrow> dirent list" where
  "two_server_tree outdir sep =
     [\<lparr>file_name = ''serverA'', file_path = outdir, isFile = False\<rparr>,
      \<lparr>file_name = ''serverB'', file_path = outdir, isFile = False\<rparr>,
      \<lparr>file_name = ''x.js'', file_path = join sep outdir ''serverA'', isFile = True\<rparr>,
      \<lparr>file_name = ''sub'', file_path = join sep outdir ''serverB'', isFile = False\<rparr>,
      \<lparr>file_name = ''y.js'', file_path = join sep (join sep outdir ''serverB'') ''sub'',
        isFile = True\<rparr>]"

definition address :: "descriptor \<Rightarrow> string \<times> string" where
  "address d = (server d, filename d)"


section \<open>Extension hooks and their dispatch\<close>

datatype hook_name =
  Setup | BeforeConnect | AfterConnect | BeforeBuild | AfterBuild | BeforeDistribute
  | AfterDistribute

text \<open>
  A hook is declared as \<^verbatim>\<open>() => void | Promise<void>\<close>. Called, it returns nothing, throws,
  or returns a promise that later fulfils or rejects.
\<close>

datatype hook_behaviour = ReturnsVoid | Throws | ReturnsFulfilled | ReturnsRejected

text \<open>An extension is an object of optional hooks.\<close>

type_synonym extension = "hook_name \<Rightarrow> hook_behaviour option"

datatype settled = Fulfilled | Rejected

fun outcome :: "hook_behaviour \<Rightarrow> settled" where
  "outcome ReturnsRejected = Rejected"
| "outcome b = Fulfilled"

text \<open>
  \<^verbatim>\<open>extensions.map(e => (e.hook ?? (() => { }))(remoteAPI))\<close>: the callback of \<^verbatim>\<open>map\<close> calls
  each hook in turn, the no-op where an extension has none. A hook that throws ends the
  \<^verbatim>\<open>map\<close> there: the exception leaves the expression before \<^verbatim>\<open>Promise.allSettled\<close> is
  called, and the hooks of the later extensions are not called. The first component lists
  the positions of the extensions whose own hook was called, \<open>i\<close> being the position of
  the head of the list.
\<close>

fun map_hooks :: "hook_name \<Rightarrow> extension list \<Rightarrow> nat \<Rightarrow> nat list \<times> (failure + settled list)" where
  "map_hooks h [] i = ([], Inr [])"
| "map_hooks h (e # es) i =
     (case e h of
        None \<Rightarrow>
          (case map_hooks h es (Suc i) of (called, r) \<Rightarrow> (called, map_sum id (Cons Fulfilled) r))
      | Some Throws \<Rightarrow> ([i], Inl HookThrew)
      | Some b \<Rightarrow>
          (case map_hooks h es (Suc i) of
             (called, r) \<Rightarrow> (i # called, map_sum id (Cons (outcome b)) r)))"

text \<open>
  \<^verbatim>\<open>await Promise.allSettled(extensions.map(...))\<close>: once the \<^verbatim>\<open>map\<close> has returned,
  awaiting the promise of \<^verbatim>\<open>allSettled\<close> gives the outcome of every call and never throws.
\<close>

definition dispatch :: "hook_name \<Rightarrow> extension list \<Rightarrow> nat list \<times> (failure + settled list)" where
  "dispatch h exts = map_hooks h exts 0"


section \<open>The mirror handler of \<^verbatim>\<open>client-connected\<close>\<close>

text \<open>
  What the handler meets: whether a local directory exists, and whether \<^verbatim>\<open>mkdir\<close>, a
  session's \<^verbatim>\<open>initFileCache\<close> and its \<^verbatim>\<open>syncWithRemote\<close> resolve or reject. Sessions are
  numbered in the order in which the handler creates them.
\<close>

record mirror_env =
  existsSync :: "string \<Rightarrow> bool"
  mkdir_resolves :: "string \<Rightarrow> bool"
  init_resolves :: "nat \<Rightarrow> bool"
  sync_resolves :: "nat \<Rightarrow> bool"

datatype mirror_action =
  Mkdir string | MirrorCreated nat string "string list"
  | InitBegun nat | InitResolved nat | InitRejected nat
  | SyncBegun nat | SyncResolved nat | SyncRejected nat
  | WatchBegun nat

text \<open>
  The first loop, over the keys of \<^verbatim>\<open>opts.mirror\<close>: the directory is created when it is
  missing (\<^verbatim>\<open>mkdir\<close> is awaited), then the session, whose disposal is registered for
  \<^verbatim>\<open>close\<close>. The result is the trace and whether the loop ran to its end.
\<close>

fun create_mirrors :: "mirror_env \<Rightarrow> (string \<times> string list) list \<Rightarrow> nat \<Rightarrow> mirror_action list \<times> bool" where
  "create_mirrors env [] i = ([], True)"
| "create_mirrors env ((p, servers) # rest) i =
     (if existsSync env p
      then (case create_mirrors env rest (Suc i) of
              (tr, ok) \<Rightarrow> (MirrorCreated i p servers # tr, ok))
      else if mkdir_resolves env p
      then (case create_mirrors env rest (Suc i) of
              (tr, ok) \<Rightarrow> (Mkdir p # MirrorCreated i p servers # tr, ok))
      else ([Mkdir p], False))"

text \<open>
  \<^verbatim>\<open>for (const mirror of mirrors) { await mirror.op(); }\<close>: each call is awaited before
  the next is made, and a rejection leaves the loop and the handler.
\<close>

fun await_each :: "(nat \<Rightarrow> mirror_action) \<Rightarrow> (nat \<Rightarrow> mirror_action) \<Rightarrow> (nat \<Rightarrow> mirror_action) \<Rightarrow>
    (nat \<Rightarrow> bool) \<Rightarrow> nat list \<Rightarrow> mirror_action list \<times> bool" where
  "await_each begun resolved rejected ok [] = ([], True)"
| "await_each begun resolved rejected ok (m # ms) =
     (if ok m
      then (case await_each begun resolved rejected ok ms of
              (tr, r) \<Rightarrow> (begun m # resolved m # tr, r))
      else ([begun m, rejected m], False))"

text \<open>
  The handler: nothing without a mirror mapping; otherwise the three loops one after
  the other, then \<^verbatim>\<open>watch\<close> called on every session without being awaited.
\<close>

definition mirror_handler ::
    "mirror_env \<Rightarrow> (string \<times> string list) list option \<Rightarrow> mirror_action list \<times> bool" where
  "mirror_handler env mirror =
     (case mirror of
        None \<Rightarrow> ([], True)
      | Some entries \<Rightarrow>
          (case create_mirrors env entries 0 of
             (tr1, False) \<Rightarrow> (tr1, False)
           | (tr1, True) \<Rightarrow>
               (let mirrors = [0..<length entries] in
                case await_each InitBegun InitResolved InitRejected (init_resolves env) mirrors of
                  (tr2, False) \<Rightarrow> (tr1 @ tr2, False)
                | (tr2, True) \<Rightarrow>
                    (case await_each SyncBegun SyncResolved SyncRejected (sync_resolves env) mirrors of
                       (tr3, False) \<Rightarrow> (tr1 @ tr2 @ tr3, False)
                     | (tr3, True) \<Rightarrow> (tr1 @ tr2 @ tr3 @ map WatchBegun mirrors, True)))))"

text \<open>In the trace \<open>tr\<close>, \<open>y\<close> does not occur, or \<open>x\<close> occurs before the first \<open>y\<close>.\<close>

definition precedes :: "'a \<Rightarrow> 'a \<Rightarrow> 'a list \<Rightarrow> bool" where
  "precedes x y tr = (if y \<in> set tr then x \<in> set (takeWhile (\<lambda>z. z \<noteq> y) tr) else True)"

section \<open>The deployment state and the handler of \<^verbatim>\<open>onEnd\<close>\<close>

text \<open>
  The handler of \<^verbatim>\<open>onEnd\<close> is an asynchronous function; each call of it is a task that
  stands at one of the handler's awaits, or has ended. \<open>WaitClient\<close> is the await of the
  promise that the \<^verbatim>\<open>client-connected\<close> listener resolves, \<open>ReadDir\<close> the await of
  \<^verbatim>\<open>fs.readdir\<close>, \<open>Pushing\<close> the await of \<^verbatim>\<open>Promise.all(promises)\<close>, \<open>Costing\<close> the await
  of the \<^verbatim>\<open>Promise.all\<close> of the \<^verbatim>\<open>calculateRAM\<close> calls, \<open>Hooks\<close> the await of the
  \<^verbatim>\<open>afterBuild\<close> dispatch. \<open>Finished\<close> is the final \<^verbatim>\<open>return\<close>, \<open>NoFiles\<close> the
  \<^verbatim>\<open>return\<close> on an empty file list, \<open>Failed\<close> a rejection that left the handler.
  Execution is single-threaded: when what a task awaits settles, the task runs on to its
  next await before any other event is handled, so each event below is one step.
\<close>

datatype phase = WaitClient | ReadDir | Pushing | Costing | Hooks | Finished | NoFiles | Failed

text \<open>
  Each file of the push stage has its own asynchronous function: it awaits
  \<^verbatim>\<open>fs.readFile\<close>, then calls \<^verbatim>\<open>pushFile\<close> and returns its promise.
\<close>

datatype push_status = ReadingFile | PushPending | PushDone | PushFailed

datatype cost_status = CostPending | CostDone | CostFailed

record task =
  phase :: phase
  files :: "descriptor list"
  pushes :: "push_status list"
  costs :: "cost_status list"

text \<open>The calls made on the remote API and the dispatch of the hooks, by task number.\<close>

datatype call = PushFile nat descriptor | CalculateRAM nat descriptor | DispatchAfterBuild nat

text \<open>
  The state of the plugin: the configuration (\<open>outdir\<close>, \<open>extensions\<close>), the variable
  \<^verbatim>\<open>queued\<close> of \<^verbatim>\<open>setup\<close>, whether \<^verbatim>\<open>remoteAPI.connection\<close> is there and connected, the
  output directory on disk, the tasks in the order of their submission, and the calls
  made so far.
\<close>

record plugin =
  outdir :: string
  extensions :: "extension list"
  queued :: bool
  connected :: bool
  disk :: "dirent list option"
  tasks :: "task list"
  calls :: "call list"

definition init :: "string \<Rightarrow> extension list \<Rightarrow> bool \<Rightarrow> dirent list option \<Rightarrow> plugin" where
  "init dir exts conn d =
     \<lparr>outdir = dir, extensions = exts, queued = False, connected = conn, disk = d,
      tasks = [], calls = []\<rparr>"

definition new_task :: "phase \<Rightarrow> task" where
  "new_task p = \<lparr>phase = p, files = [], pushes = [], costs = []\<rparr>"

definition update_task :: "nat \<Rightarrow> (task \<Rightarrow> task) \<Rightarrow> plugin \<Rightarrow> plugin" where
  "update_task tid f s = s\<lparr>tasks := (tasks s)[tid := f (tasks s ! tid)]\<rparr>"

text \<open>
  The handler from its entry to its first await, for a build result with \<open>errors\<close>
  errors. Nothing is awaited between the test of \<^verbatim>\<open>queued\<close> and the assignment
  \<^verbatim>\<open>queued = true\<close>, which stands inside the branch taken without a connection. With a
  connection the handler goes on to \<^verbatim>\<open>fs.readdir\<close> and leaves \<^verbatim>\<open>queued\<close> as it is.
\<close>

definition onEnd :: "nat \<Rightarrow> plugin \<Rightarrow> plugin" where
  "onEnd errors s =
     (if errors \<noteq> 0 then s
      else if queued s then s
      else if \<not> connected s
      then s\<lparr>queued := True, tasks := tasks s @ [new_task WaitClient]\<rparr>
      else s\<lparr>tasks := tasks s @ [new_task ReadDir]\<rparr>)"

text \<open>
  The event \<^verbatim>\<open>client-connected\<close>, emitted for a new connection, which is then there
  and connected. Its listeners are called one after the other in the order of their
  registration. The first is the listener of lines 62 to 64, which is not asynchronous
  and calls the \<^verbatim>\<open>afterConnect\<close> hooks inside \<^verbatim>\<open>extensions.map\<close>: a hook that throws
  leaves that listener and the emission, and no listener registered after it is called.
  The listeners of the waiting tasks are registered later, by the handler of \<^verbatim>\<open>onEnd\<close>.
  When they are reached, each resolves the promise of its task, and the task goes on to
  \<^verbatim>\<open>fs.readdir\<close>. The listeners are never removed; resolving the promise of a task that
  has gone on already does nothing.
\<close>

definition resume :: "task \<Rightarrow> task" where
  "resume t = (if phase t = WaitClient then t\<lparr>phase := ReadDir\<rparr> else t)"

definition listeners_reached :: "plugin \<Rightarrow> bool" where
  "listeners_reached s =
     (case snd (dispatch AfterConnect (extensions s)) of Inl e \<Rightarrow> False | Inr r \<Rightarrow> True)"

definition client_connected :: "plugin \<Rightarrow> plugin" where
  "client_connected s =
     s\<lparr>connected := True,
       tasks := (if listeners_reached s then map resume (tasks s) else tasks s)\<rparr>"

text \<open>
  \<^verbatim>\<open>fs.readdir\<close> settles for task \<open>tid\<close>: a rejection leaves the handler; an empty file list
  returns; otherwise the asynchronous function of every file is started.
\<close>

definition start_pushes :: "descriptor list \<Rightarrow> task \<Rightarrow> task" where
  "start_pushes fs t =
     (if length fs = 0 then t\<lparr>phase := NoFiles, files := fs\<rparr>
      else t\<lparr>phase := Pushing, files := fs, pushes := replicate (length fs) ReadingFile\<rparr>)"

definition readdir_done :: "nat \<Rightarrow> plugin \<Rightarrow> plugin" where
  "readdir_done tid s =
     (if tid < length (tasks s) \<and> phase (tasks s ! tid) = ReadDir
      then (case resolve_step (outdir s) (disk s) of
              Inl e \<Rightarrow> update_task tid (\<lambda>t. t\<lparr>phase := Failed\<rparr>) s
            | Inr fs \<Rightarrow> update_task tid (start_pushes fs) s)
      else s)"

text \<open>
  A rejection inside the asynchronous function of file \<open>i\<close> rejects its promise, and with
  it \<^verbatim>\<open>Promise.all\<close> when the handler still awaits it; the functions of the other files
  run on.
\<close>

definition reject_push :: "nat \<Rightarrow> task \<Rightarrow> task" where
  "reject_push i t =
     t\<lparr>pushes := (pushes t)[i := PushFailed],
       phase := (if phase t = Pushing then Failed else phase t)\<rparr>"

definition read_file_done :: "nat \<Rightarrow> nat \<Rightarrow> bool \<Rightarrow> plugin \<Rightarrow> plugin" where
  "read_file_done tid i ok s =
     (if tid < length (tasks s) \<and> i < length (pushes (tasks s ! tid))
         \<and> i < length (files (tasks s ! tid)) \<and> pushes (tasks s ! tid) ! i = ReadingFile
      then (if ok
            then (update_task tid (\<lambda>t. t\<lparr>pushes := (pushes t)[i := PushPending]\<rparr>) s)
                   \<lparr>calls := calls s @ [PushFile tid (files (tasks s ! tid) ! i)]\<rparr>
            else update_task tid (reject_push i) s)
      else s)"

text \<open>
  When the last push has fulfilled, \<^verbatim>\<open>Promise.all(promises)\<close> fulfils and the handler
  calls \<^verbatim>\<open>calculateRAM\<close> for every file.
\<close>

definition all_pushed :: "task \<Rightarrow> bool" where
  "all_pushed t = list_all (\<lambda>p. p = PushDone) (pushes t)"

definition start_costs :: "nat \<Rightarrow> plugin \<Rightarrow> plugin" where
  "start_costs tid s =
     (if phase (tasks s ! tid) = Pushing \<and> all_pushed (tasks s ! tid)
      then (update_task tid
              (\<lambda>t. t\<lparr>phase := Costing, costs := replicate (length (files t)) CostPending\<rparr>) s)
             \<lparr>calls := calls s @ map (CalculateRAM tid) (files (tasks s ! tid))\<rparr>
      else s)"

definition push_settled :: "nat \<Rightarrow> nat \<Rightarrow> bool \<Rightarrow> plugin \<Rightarrow> plugin" where
  "push_settled tid i ok s =
     (if tid < length (tasks s) \<and> i < length (pushes (tasks s ! tid))
         \<and> pushes (tasks s ! tid) ! i = PushPending
      then (if ok
            then start_costs tid
                   (update_task tid (\<lambda>t. t\<lparr>pushes := (pushes t)[i := PushDone]\<rparr>) s)
            else update_task tid (reject_push i) s)
      else s)"

text \<open>
  When the last \<^verbatim>\<open>calculateRAM\<close> has fulfilled, the handler assigns \<^verbatim>\<open>queued = false\<close>,
  prints, and dispatches \<^verbatim>\<open>afterBuild\<close>; a hook that throws leaves the handler.
\<close>

definition all_costed :: "task \<Rightarrow> bool" where
  "all_costed t = list_all (\<lambda>c. c = CostDone) (costs t)"

definition finish_costs :: "nat \<Rightarrow> plugin \<Rightarrow> plugin" where
  "finish_costs tid s =
     (if phase (tasks s ! tid) = Costing \<and> all_costed (tasks s ! tid)
      then update_task tid
             (\<lambda>t. t\<lparr>phase := (case snd (dispatch AfterBuild (extensions s)) of
                                Inl e \<Rightarrow> Failed | Inr r \<Rightarrow> Hooks)\<rparr>)
             (s\<lparr>queued := False, calls := calls s @ [DispatchAfterBuild tid]\<rparr>)
      else s)"

definition reject_cost :: "nat \<Rightarrow> task \<Rightarrow> task" where
  "reject_cost i t =
     t\<lparr>costs := (costs t)[i := CostFailed],
       phase := (if phase t = Costing then Failed else phase t)\<rparr>"

definition cost_settled :: "nat \<Rightarrow> nat \<Rightarrow> bool \<Rightarrow> plugin \<Rightarrow> plugin" where
  "cost_settled tid i ok s =
     (if tid < length (tasks s) \<and> i < length (costs (tasks s ! tid))
         \<and> costs (tasks s ! tid) ! i = CostPending
      then (if ok
            then finish_costs tid
                   (update_task tid (\<lambda>t. t\<lparr>costs := (costs t)[i := CostDone]\<rparr>) s)
            else update_task tid (reject_cost i) s)
      else s)"

definition hooks_settled :: "nat \<Rightarrow> plugin \<Rightarrow> plugin" where
  "hooks_settled tid s =
     (if tid < length (tasks s) \<and> phase (tasks s ! tid) = Hooks
      then update_task tid (\<lambda>t. t\<lparr>phase := Finished\<rparr>) s
      else s)"

text \<open>
  What can happen to the plugin. \<open>BuildStart\<close> is the handler of \<^verbatim>\<open>onStart\<close>, which
  removes the output directory; \<open>BuildWrite\<close> is the bundler writing its output;
  \<open>BuildEnd n\<close> is the call of the \<^verbatim>\<open>onEnd\<close> handler with \<open>n\<close> errors. The other events
  settle what a task awaits. An event that nothing awaits changes nothing.
\<close>

datatype event =
  BuildStart | BuildWrite "dirent list" | BuildEnd nat
  | ClientConnected | ClientDisconnected
  | ReaddirDone nat | ReadFileDone nat nat bool | PushSettled nat nat bool
  | CostSettled nat nat bool | HooksSettled nat

fun step :: "event \<Rightarrow> plugin \<Rightarrow> plugin" where
  "step BuildStart s = s\<lparr>disk := None\<rparr>"
| "step (BuildWrite entries) s = s\<lparr>disk := Some entries\<rparr>"
| "step (BuildEnd n) s = onEnd n s"
| "step ClientConnected s = client_connected s"
| "step ClientDisconnected s = s\<lparr>connected := False\<rparr>"
| "step (ReaddirDone tid) s = readdir_done tid s"
| "step (ReadFileDone tid i ok) s = read_file_done tid i ok s"
| "step (PushSettled tid i ok) s = push_settled tid i ok s"
| "step (CostSettled tid i ok) s = cost_settled tid i ok s"
| "step (HooksSettled tid) s = hooks_settled tid s"

fun run :: "event list \<Rightarrow> plugin \<Rightarrow> plugin" where
  "run [] s = s"
| "run (e # es) s = run es (step e s)"

text \<open>A task whose push sequence (waiting, listing, pushing, costing) has not ended.\<close>

definition in_flight :: "task \<Rightarrow> bool" where
  "in_flight t = (phase t \<in> {WaitClient, ReadDir, Pushing, Costing})"

text \<open>
  A plugin at rest: \<^verbatim>\<open>queued\<close> is false and no push sequence is in flight.
\<close>

definition idle :: "plugin \<Rightarrow> bool" where
  "idle s = (\<not> queued s \<and> list_all (\<lambda>t. \<not> in_flight t) (tasks s))"

text \<open>
  After the submission of task \<open>tid\<close> without a connection: as long as that task is in
  flight, \<^verbatim>\<open>queued\<close> is set and no other task is in flight.
\<close>

definition sole_flight :: "nat \<Rightarrow> plugin \<Rightarrow> bool" where
  "sole_flight tid s =
     (tid < length (tasks s) \<and>
      (if in_flight (tasks s ! tid)
       then queued s \<and>
            list_all (\<lambda>k. k = tid \<or> \<not> in_flight (tasks s ! k)) [0..<length (tasks s)]
       else True))"

text \<open>An event that submits a build result to the handler of \<^verbatim>\<open>onEnd\<close>.\<close>

definition submission :: "event \<Rightarrow> bool" where
  "submission e = (case e of BuildEnd n \<Rightarrow> True | _ \<Rightarrow> False)"

text \<open>Every \<^verbatim>\<open>calculateRAM\<close> call of the task has been made and has fulfilled.\<close>

definition costed :: "task \<Rightarrow> bool" where
  "costed t = (costs t \<noteq> [] \<and> all_costed t)"

text \<open>What the lists of a task hold at each await of the handler.\<close>

definition task_wf :: "task \<Rightarrow> bool" where
  "task_wf t =
     (case phase t of
        WaitClient \<Rightarrow> pushes t = [] \<and> costs t = []
      | ReadDir \<Rightarrow> pushes t = [] \<and> costs t = []
      | NoFiles \<Rightarrow> pushes t = [] \<and> costs t = []
      | Pushing \<Rightarrow> costs t = [] \<and> pushes t \<noteq> [] \<and> length (pushes t) = length (files t)
      | Costing \<Rightarrow> costs t \<noteq> [] \<and> CostFailed \<notin> set (costs t) \<and> \<not> all_costed t
      | Hooks \<Rightarrow> costed t
      | Finished \<Rightarrow> costed t
      | Failed \<Rightarrow> costs t = [] \<or> CostFailed \<in> set (costs t) \<or> costed t)"

text \<open>
  After the submission of task \<open>tid\<close> to a plugin at rest, with \<open>conn0\<close> telling whether
  there was a connection then, and as long as no other build result is submitted:
  \<^verbatim>\<open>queued\<close> is set exactly when there was no connection and the cost stage of the task
  has not been passed.
\<close>

definition gate_inv :: "bool \<Rightarrow> nat \<Rightarrow> plugin \<Rightarrow> bool" where
  "gate_inv conn0 tid s =
     (length (tasks s) = Suc tid \<and> list_all (\<lambda>t. \<not> in_flight t) (take tid (tasks s)) \<and>
      task_wf (tasks s ! tid) \<and>
      queued s = (\<not> conn0 \<and> \<not> costed (tasks s ! tid)))"


text \<open>
  The lists of a task that awaits its pushes or its costs have one entry for each of its
  files.
\<close>

definition staged :: "task \<Rightarrow> bool" where
  "staged t =
     ((if phase t = Pushing \<or> phase t = Costing then length (pushes t) = length (files t) else True) \<and>
      (if phase t = Costing then length (costs t) = length (files t) else True))"

text \<open>
  The barrier of a call in a state: a \<^verbatim>\<open>calculateRAM\<close> call belongs to a task that has
  left the push stage with the push of every one of its files fulfilled; a dispatch of
  \<^verbatim>\<open>afterBuild\<close> belongs to a task that has left the cost stage with the cost of every
  one of its files fulfilled.
\<close>

definition barrier_ok :: "plugin \<Rightarrow> call \<Rightarrow> bool" where
  "barrier_ok s c =
     (case c of
        PushFile tid d \<Rightarrow> True
      | CalculateRAM tid d \<Rightarrow>
          tid < length (tasks s) \<and> phase (tasks s ! tid) \<in> {Costing, Hooks, Finished, Failed}
          \<and> length (pushes (tasks s ! tid)) = length (files (tasks s ! tid))
          \<and> all_pushed (tasks s ! tid)
      | DispatchAfterBuild tid \<Rightarrow>
          tid < length (tasks s) \<and> phase (tasks s ! tid) \<in> {Hooks, Finished, Failed}
          \<and> length (costs (tasks s ! tid)) = length (files (tasks s ! tid))
          \<and> all_costed (tasks s ! tid))"

definition barriers :: "plugin \<Rightarrow> bool" where
  "barriers s = (list_all staged (tasks s) \<and> list_all (barrier_ok s) (calls s))"


section \<open>Facts about the matcher\<close>

lemma strip_lit_append: "strip_lit l s = Some r \<longleftrightarrow> s = l @ r"
  by (induction l s rule: strip_lit.induct) auto

lemma set_match_Lit: "set (match (Lit l) s) = {r. s = l @ r}"
proof (cases "strip_lit l s")
  case None
  then have "\<And>r. s \<noteq> l @ r" using strip_lit_append[of l s] by auto
  with None show ?thesis by simp
next
  case (Some r)
  then have "\<And>r'. s = l @ r' \<longleftrightarrow> r' = r" using strip_lit_append[of l s] by auto
  with Some show ?thesis by simp
qed

lemma react_filter_iff:
  "test_anchored react_filter p \<longleftrightarrow> p = ''react'' \<or> p = ''react-dom''"
proof -
  have "test_anchored react_filter p \<longleftrightarrow>
        (\<exists>r\<in>set (match (Lit ''react'') p). [] \<in> set (match (Lit ''-dom'') r) \<or> r = [])"
    by (auto simp: test_anchored_def react_filter_def)
  also have "\<dots> \<longleftrightarrow> p = ''react'' \<or> p = ''react-dom''"
    unfolding set_match_Lit by auto
  finally show ?thesis .
qed

lemma first_segment_match:
  "\<forall>c\<in>set a. c \<noteq> slash \<and> \<not> lineTerminator c \<Longrightarrow>
   \<exists>more. match first_segment (a @ slash # r) = r # more"
  unfolding first_segment_def
  by (induction a) auto

lemma replace_first_segment:
  "\<forall>c\<in>set a. c \<noteq> slash \<and> \<not> lineTerminator c \<Longrightarrow>
   replace_anchored first_segment (a @ slash # r) = r"
  using first_segment_match[of a r] unfolding replace_anchored_def by auto

lemma lazy_any_suffix: "xs \<in> set (lazy_any a) \<Longrightarrow> set xs \<subseteq> set a"
  by (induction a) (auto split: if_splits)

lemma no_slash_no_match:
  assumes "slash \<notin> set a"
  shows "match first_segment a = []"
proof -
  have "match (Lit [slash]) xs = []" if "xs \<in> set (lazy_any a)" for xs
  proof (cases xs)
    case Nil
    then show ?thesis by simp
  next
    case (Cons c cs)
    with lazy_any_suffix[OF that] assms have "c \<noteq> slash" by auto
    with Cons show ?thesis by simp
  qed
  then show ?thesis by (simp add: first_segment_def)
qed

lemma replace_without_slash: "slash \<notin> set a \<Longrightarrow> replace_anchored first_segment a = a"
  by (simp add: replace_anchored_def no_slash_no_match)

section \<open>The react shim\<close>

text \<open>
  C10. An import whose path is exactly \<^verbatim>\<open>react\<close> or \<^verbatim>\<open>react-dom\<close> is intercepted:
  \<open>onResolve\<close> answers for these two paths and for no other, with the namespace
  \<^verbatim>\<open>react\<close>, and what is loaded from that namespace is
  \<^verbatim>\<open>module.exports = window.React\<close> for the first and
  \<^verbatim>\<open>module.exports = window.ReactDOM\<close> for the second, so neither is left to the
  bundler's own resolution.
\<close>

theorem react_imports_shimmed:
  "onResolve p =
     (if p = ''react'' \<or> p = ''react-dom''
      then Some \<lparr>namespace = ''react'', resolved_path = p\<rparr> else None)
   \<and> load_import ''react'' = Some (''react'', ''module.exports = window.React'')
   \<and> load_import ''react-dom'' = Some (''react'', ''module.exports = window.ReactDOM'')"
  by (simp add: load_import_def onResolve_def onLoad_def react_filter_iff)

theorem react_imports_shimmed_witness:
  "onResolve ''react-dom'' = Some \<lparr>namespace = ''react'', resolved_path = ''react-dom''\<rparr>
   \<and> onResolve ''react-domx'' = None
   \<and> load_import ''react'' = Some (''react'', ''module.exports = window.React'')"
  using react_imports_shimmed [of "''react-dom''"] react_imports_shimmed [of "''react-domx''"]
  by simp

section \<open>Output file resolution: the two-server tree\<close>

lemma replaceAll_append: "replaceAll a b (xs @ ys) = replaceAll a b xs @ replaceAll a b ys"
  by (simp add: replaceAll_def)

lemma replaceAll_absent: "a \<notin> set xs \<Longrightarrow> replaceAll a b xs = xs"
  by (induction xs) (auto simp: replaceAll_def)

lemma replaceAll_sep: "sep = slash \<or> sep = backslash \<Longrightarrow> replaceAll backslash slash [sep] = [slash]"
  by (auto simp: replaceAll_def)

lemma rebase_single_segment:
  assumes dir: "\<forall>c\<in>set dir. c \<noteq> slash \<and> c \<noteq> backslash \<and> \<not> lineTerminator c"
      and rel: "replaceAll backslash slash (sep # rel) = slash # rel'"
  shows "file_path (rebase \<lparr>file_name = n, file_path = dir @ sep # rel, isFile = f\<rparr>) = rel'"
proof -
  have "backslash \<notin> set dir" using dir by auto
  then have "replaceAll backslash slash (dir @ sep # rel) = dir @ slash # rel'"
    by (simp add: replaceAll_append replaceAll_absent rel)
  then show ?thesis
    using replace_first_segment[of dir rel'] dir by (simp add: rebase_def)
qed

text \<open>
  A regular file that lies in the output directory itself, under no server directory,
  is addressed to a server named like the output directory.
\<close>

lemma root_file_address:
  assumes "\<forall>c\<in>set dir. c \<noteq> slash \<and> c \<noteq> backslash \<and> \<not> lineTerminator c"
  shows "address (describe dir (rebase \<lparr>file_name = n, file_path = dir, isFile = True\<rparr>)) = (dir, n)"
proof -
  have "slash \<notin> set dir" "backslash \<notin> set dir" using assms by auto
  then have p: "file_path (rebase \<lparr>file_name = n, file_path = dir, isFile = True\<rparr>) = dir"
    by (simp add: rebase_def replaceAll_absent replace_without_slash)
  have "replace_anchored first_segment (dir @ slash # n) = n"
    using assms by (intro replace_first_segment) auto
  moreover have "split_first dir = dir"
    using \<open>slash \<notin> set dir\<close> by (auto simp: split_first_def)
  moreover have "file_name (rebase \<lparr>file_name = n, file_path = dir, isFile = True\<rparr>) = n"
    by (simp add: rebase_def)
  ultimately show ?thesis
    unfolding address_def describe_def p by (simp add: slash_def)
qed

text \<open>
  With an output directory whose path is a single segment, the two files of the tree
  are addressed as the specification says, under either separator and in whatever order
  \<^verbatim>\<open>readdir\<close> lists the entries. The segment \<^verbatim>\<open>.\<close> is left out: \<^verbatim>\<open>path.join\<close> drops
  it, so the parent paths are not those of \<open>two_server_tree\<close>.
\<close>

lemma resolve_single_segment:
  assumes dir: "\<forall>c\<in>set dir. c \<noteq> slash \<and> c \<noteq> backslash \<and> \<not> lineTerminator c"
      and plain: "dir \<noteq> ''.''"
      and sep: "sep = slash \<or> sep = backslash"
      and entries: "mset entries = mset (two_server_tree dir sep)"
  shows "mset (map address (resolve_files dir entries)) =
         {#(''serverA'', ''x.js''), (''serverB'', ''sub/y.js'')#}"
proof -
  let ?x = "\<lparr>file_name = ''x.js'', file_path = dir @ sep # ''serverA'', isFile = True\<rparr>"
  let ?y = "\<lparr>file_name = ''y.js'', file_path = dir @ sep # ''serverB'' @ sep # ''sub'',
             isFile = True\<rparr>"
  have rx: "replaceAll backslash slash (sep # ''serverA'') = slash # ''serverA''"
    using sep by (auto simp: replaceAll_def backslash_def)
  have ry: "replaceAll backslash slash (sep # ''serverB'' @ sep # ''sub'') = slash # ''serverB/sub''"
    using sep by (auto simp: replaceAll_def backslash_def slash_def)
  have px: "file_path (rebase ?x) = ''serverA''"
    by (rule rebase_single_segment[OF dir rx])
  have py: "file_path (rebase ?y) = ''serverB/sub''"
    by (rule rebase_single_segment[OF dir ry])
  have nx: "file_name (rebase ?x) = ''x.js''" and ny: "file_name (rebase ?y) = ''y.js''"
    by (simp_all add: rebase_def)
  have seg: "replace_anchored first_segment ''serverA/x.js'' = ''x.js''"
            "replace_anchored first_segment ''serverB/sub/y.js'' = ''sub/y.js''"
    by (simp_all add: replace_anchored_def first_segment_def lineTerminator_def slash_def)
  have ax: "address (describe dir (rebase ?x)) = (''serverA'', ''x.js'')"
    unfolding address_def describe_def px nx using seg(1) by (simp add: split_first_def slash_def)
  have ay: "address (describe dir (rebase ?y)) = (''serverB'', ''sub/y.js'')"
    unfolding address_def describe_def py ny using seg(2) by (simp add: split_first_def slash_def)
  have "mset (map address (resolve_files dir entries)) =
        image_mset (\<lambda>e. address (describe dir (rebase e))) (filter_mset isFile (mset entries))"
    by (simp add: resolve_files_def multiset.map_comp comp_def)
  also have "filter_mset isFile (mset entries) = {#?x, ?y#}"
    unfolding entries by (simp add: two_server_tree_def join_def)
  finally show ?thesis unfolding image_mset_add_mset ax ay by simp
qed

text \<open>
  C3. The claim covers every output directory that holds \<^verbatim>\<open>serverA/x.js\<close> and
  \<^verbatim>\<open>serverB/sub/y.js\<close>. The rebasing expression removes one leading path segment only, so
  with the output directory \<^verbatim>\<open>build/out\<close> the entry of \<^verbatim>\<open>x.js\<close>, whose parent path is
  \<^verbatim>\<open>build/out/serverA\<close>, is addressed to the server \<^verbatim>\<open>out\<close> under the file name
  \<^verbatim>\<open>serverA/x.js\<close>, and the path built to read it back, \<^verbatim>\<open>build/out/out/serverA/x.js\<close>, names no
  file of the tree.
\<close>

theorem resolve_nested_outdir:
  "resolve_files ''build/out'' (two_server_tree ''build/out'' slash) =
     [\<lparr>server = ''out'', filename = ''serverA/x.js'', path = ''build/out/out/serverA/x.js''\<rparr>,
      \<lparr>server = ''out'', filename = ''serverB/sub/y.js'',
        path = ''build/out/out/serverB/sub/y.js''\<rparr>]"
  by (simp add: resolve_files_def two_server_tree_def join_def rebase_def describe_def
      replace_anchored_def first_segment_def replaceAll_def split_first_def
      lineTerminator_def slash_def backslash_def)

section \<open>Output file resolution: empty and absent directories\<close>

text \<open>
  C9, as stated, fails for an absent directory: \<^verbatim>\<open>fs.readdir\<close> rejects and the rejection is
  not caught, so the resolution step ends in an error instead of an empty list.
\<close>

theorem resolve_absent_counterexample:
  "resolve_step ''dist'' None \<noteq> Inr []"
  by (simp add: resolve_step_def readdir_def)

text \<open>
  C9, amended. On an output directory that exists and is empty the resolution step
  yields the empty list of descriptors and raises nothing; on an absent output
  directory it raises the rejection of \<^verbatim>\<open>readdir\<close>.
\<close>

theorem resolve_empty_or_absent:
  "resolve_step dir (Some []) = Inr [] \<and> resolve_step dir None = Inl ReaddirRejected"
  by (simp add: resolve_step_def readdir_def resolve_files_def)

section \<open>Dispatch of the extension hooks\<close>



text \<open>
  C6. The claim covers a hook that throws as well as one whose promise rejects. With two
  extensions, the \<^verbatim>\<open>afterBuild\<close> of the first a function that throws when called and the
  \<^verbatim>\<open>afterBuild\<close> of the second one that returns a promise, the dispatch calls the first
  hook only and ends in the exception: the second hook is never called, and the
  exception leaves the awaiting handler.
\<close>

theorem dispatch_hook_throws:
  "dispatch AfterBuild [Map.empty(AfterBuild \<mapsto> Throws), Map.empty(AfterBuild \<mapsto> ReturnsFulfilled)]
     = ([0], Inl HookThrew)"
  by (simp add: dispatch_def)

section \<open>Order of the mirror phases\<close>

lemma create_mirrors_trace:
  "a \<in> set (fst (create_mirrors env entries i)) \<Longrightarrow> (\<exists>p. a = Mkdir p) \<or> (\<exists>k p ss. a = MirrorCreated k p ss)"
  by (induction env entries i rule: create_mirrors.induct) (auto split: if_splits prod.splits)

lemma await_each_trace:
  "a \<in> set (fst (await_each b r j ok ms)) \<Longrightarrow> a \<in> b ` set ms \<union> r ` set ms \<union> j ` set ms"
  by (induction ms) (auto split: if_splits prod.splits)

lemma await_each_all:
  "snd (await_each b r j ok ms) \<Longrightarrow> r ` set ms \<subseteq> set (fst (await_each b r j ok ms))"
  by (induction ms) (auto split: if_splits prod.splits)

lemma precedes_append:
  "y \<notin> set a \<Longrightarrow> x \<in> set a \<Longrightarrow> precedes x y (a @ b)"
proof -
  assume y: "y \<notin> set a" and x: "x \<in> set a"
  have "takeWhile (\<lambda>z. z \<noteq> y) (a @ b) = a @ takeWhile (\<lambda>z. z \<noteq> y) b"
    using y by (intro takeWhile_append2) auto
  with x show ?thesis by (simp add: precedes_def)
qed

lemma precedes_absent: "y \<notin> set tr \<Longrightarrow> precedes x y tr"
  by (simp add: precedes_def)

text \<open>
  C5. In one run of the mirror handler over any mirror mapping (of two directories or
  more, or fewer), whatever resolves or rejects: no session's \<^verbatim>\<open>syncWithRemote\<close> is begun
  unless the \<^verbatim>\<open>initFileCache\<close> of every session \<open>i\<close> has resolved before, and no session's
  \<^verbatim>\<open>watch\<close> is begun unless the \<^verbatim>\<open>syncWithRemote\<close> of every session \<open>i\<close> has resolved
  before.
\<close>

theorem mirror_phases_ordered:
  assumes "i < length entries" "j < length entries"
  shows "precedes (InitResolved i) (SyncBegun j) (fst (mirror_handler env (Some entries)))
       \<and> precedes (SyncResolved i) (WatchBegun j) (fst (mirror_handler env (Some entries)))"
proof -
  let ?ms = "[0..<length entries]"
  obtain tr1 ok1 where c: "create_mirrors env entries 0 = (tr1, ok1)" by force
  obtain tr2 ok2 where i: "await_each InitBegun InitResolved InitRejected (init_resolves env) ?ms = (tr2, ok2)"
    by force
  obtain tr3 ok3 where s: "await_each SyncBegun SyncResolved SyncRejected (sync_resolves env) ?ms = (tr3, ok3)"
    by force
  have t1: "SyncBegun j \<notin> set tr1" "WatchBegun j \<notin> set tr1"
    using create_mirrors_trace[of _ env entries 0] c by auto
  have t2: "SyncBegun j \<notin> set tr2" "WatchBegun j \<notin> set tr2"
    using await_each_trace[of _ InitBegun InitResolved InitRejected "init_resolves env" ?ms] i by auto
  have t3: "WatchBegun j \<notin> set tr3"
    using await_each_trace[of _ SyncBegun SyncResolved SyncRejected "sync_resolves env" ?ms] s by auto
  have r2: "InitResolved i \<in> set tr2" if ok2
    using await_each_all[of InitBegun InitResolved InitRejected "init_resolves env" ?ms] i that assms
    by auto
  have r3: "SyncResolved i \<in> set tr3" if ok3
    using await_each_all[of SyncBegun SyncResolved SyncRejected "sync_resolves env" ?ms] s that assms
    by auto
  show ?thesis
  proof (cases "ok1 \<and> ok2")
    case False
    then have "fst (mirror_handler env (Some entries)) = tr1 \<or>
               fst (mirror_handler env (Some entries)) = tr1 @ tr2"
      by (cases ok1; cases ok2) (simp_all add: mirror_handler_def c i Let_def)
    with t1 t2 show ?thesis by (auto intro!: precedes_absent)
  next
    case True
    show ?thesis
    proof (cases ok3)
      case False
      with True have tr: "fst (mirror_handler env (Some entries)) = (tr1 @ tr2) @ tr3"
        by (simp add: mirror_handler_def c i s Let_def)
      have "precedes (InitResolved i) (SyncBegun j) ((tr1 @ tr2) @ tr3)"
        using t1 t2 r2 True by (intro precedes_append) auto
      moreover have "precedes (SyncResolved i) (WatchBegun j) ((tr1 @ tr2) @ tr3)"
        using t1 t2 t3 by (intro precedes_absent) auto
      ultimately show ?thesis unfolding tr by simp
    next
      case ok: True
      with True have tr: "fst (mirror_handler env (Some entries)) = tr1 @ tr2 @ tr3 @ map WatchBegun ?ms"
        by (simp add: mirror_handler_def c i s Let_def)
      have "precedes (InitResolved i) (SyncBegun j) ((tr1 @ tr2) @ (tr3 @ map WatchBegun ?ms))"
        using t1 t2 r2 True by (intro precedes_append) auto
      moreover have "precedes (SyncResolved i) (WatchBegun j) ((tr1 @ tr2 @ tr3) @ map WatchBegun ?ms)"
        using t1 t2 t3 r3 ok by (intro precedes_append) auto
      ultimately show ?thesis unfolding tr by simp
    qed
  qed
qed

theorem mirror_phases_ordered_witness:
  "precedes (InitResolved 0) (SyncBegun 1)
     (fst (mirror_handler
        \<lparr>existsSync = (\<lambda>p. p = ''scripts''), mkdir_resolves = (\<lambda>p. True),
         init_resolves = (\<lambda>i. True), sync_resolves = (\<lambda>i. True)\<rparr>
        (Some [(''scripts'', [''home'']), (''lib'', [''srv'', ''home''])])))
   \<and> WatchBegun 1 \<in> set (fst (mirror_handler
        \<lparr>existsSync = (\<lambda>p. p = ''scripts''), mkdir_resolves = (\<lambda>p. True),
         init_resolves = (\<lambda>i. True), sync_resolves = (\<lambda>i. True)\<rparr>
        (Some [(''scripts'', [''home'']), (''lib'', [''srv'', ''home''])])))"
  using mirror_phases_ordered [of 0 "[(''scripts'', [''home'']), (''lib'', [''srv'', ''home''])]" 1
      "\<lparr>existsSync = (\<lambda>p. p = ''scripts''), mkdir_resolves = (\<lambda>p. True),
         init_resolves = (\<lambda>i. True), sync_resolves = (\<lambda>i. True)\<rparr>"]
  by (simp add: mirror_handler_def upt_rec Let_def)

section \<open>Steps of the plugin\<close>

lemma update_task_fields [simp]:
  "queued (update_task tid f s) = queued s"
  "connected (update_task tid f s) = connected s"
  "disk (update_task tid f s) = disk s"
  "calls (update_task tid f s) = calls s"
  "outdir (update_task tid f s) = outdir s"
  "extensions (update_task tid f s) = extensions s"
  "tasks (update_task tid f s) = (tasks s)[tid := f (tasks s ! tid)]"
  by (simp_all add: update_task_def)

lemma client_connected_fields [simp]:
  "queued (client_connected s) = queued s"
  "connected (client_connected s) = True"
  "disk (client_connected s) = disk s"
  "calls (client_connected s) = calls s"
  "outdir (client_connected s) = outdir s"
  "extensions (client_connected s) = extensions s"
  "length (tasks (client_connected s)) = length (tasks s)"
  by (simp_all add: client_connected_def)

lemma client_connected_task:
  "k < length (tasks s) \<Longrightarrow>
   tasks (client_connected s) ! k = (if listeners_reached s then resume (tasks s ! k) else tasks s ! k)"
  by (simp add: client_connected_def)

lemmas handler_defs =
  onEnd_def client_connected_task readdir_done_def read_file_done_def push_settled_def
  cost_settled_def hooks_settled_def start_costs_def finish_costs_def

lemma length_tasks_step: "length (tasks s) \<le> length (tasks (step e s))"
  by (cases e) (auto simp: handler_defs split: sum.splits)

lemma length_tasks_queued: "queued s \<Longrightarrow> length (tasks (step e s)) = length (tasks s)"
  by (cases e) (auto simp: handler_defs split: sum.splits)

lemma in_flight_step:
  "k < length (tasks s) \<Longrightarrow> in_flight (tasks (step e s) ! k) \<Longrightarrow> in_flight (tasks s ! k)"
  by (cases e)
     (auto simp: handler_defs in_flight_def nth_list_update nth_append resume_def start_pushes_def
        reject_push_def reject_cost_def split: sum.splits if_splits)

lemma queued_step:
  "queued s \<Longrightarrow> \<not> queued (step e s) \<Longrightarrow>
   \<exists>k<length (tasks s). in_flight (tasks s ! k) \<and> \<not> in_flight (tasks (step e s) ! k)"
  by (cases e)
     (auto simp: handler_defs in_flight_def nth_list_update split: sum.splits if_splits)

lemmas run_defs =
  init_def onEnd_def client_connected_def listeners_reached_def readdir_done_def read_file_done_def push_settled_def
  cost_settled_def hooks_settled_def start_costs_def finish_costs_def update_task_def resume_def
  start_pushes_def reject_push_def reject_cost_def new_task_def resolve_step_def readdir_def
  resolve_files_def describe_def rebase_def replace_anchored_def first_segment_def replaceAll_def
  split_first_def lineTerminator_def slash_def backslash_def all_pushed_def all_costed_def
  dispatch_def in_flight_def idle_def

section \<open>Builds with compile errors\<close>

text \<open>
  C7. A build result with at least one error is dropped by the handler of \<^verbatim>\<open>onEnd\<close>: the
  state of the plugin is the same after the call, so no task stands for that build, no
  \<^verbatim>\<open>pushFile\<close> and no \<^verbatim>\<open>calculateRAM\<close> call is made for it, and whatever happens later
  happens as if the build had not been submitted.
\<close>

theorem build_errors_dropped:
  "errors \<noteq> 0 \<Longrightarrow> step (BuildEnd errors) s = s \<and> run (BuildEnd errors # es) s = run es s"
  by (simp add: onEnd_def)

theorem build_errors_dropped_witness:
  "calls (run [BuildEnd 2, ReaddirDone 0, ReadFileDone 0 0 True]
      (init ''dist'' [] True (Some [\<lparr>file_name = ''a.js'', file_path = ''dist/home'', isFile = True\<rparr>]))) = []
   \<and> tasks (step (BuildEnd 2) (init ''dist'' [] True (Some [\<lparr>file_name = ''a.js'', file_path = ''dist/home'', isFile = True\<rparr>]))) = []"
  using build_errors_dropped [of 2 "init ''dist'' [] True (Some [\<lparr>file_name = ''a.js'', file_path = ''dist/home'', isFile = True\<rparr>])"
     "[ReaddirDone 0, ReadFileDone 0 0 True]"]
  by (simp add: run_defs)

section \<open>The gate of the deployment queue\<close>

lemma sole_flight_iff:
  "sole_flight tid s \<longleftrightarrow>
     tid < length (tasks s) \<and>
     (in_flight (tasks s ! tid) \<longrightarrow>
        queued s \<and> (\<forall>k<length (tasks s). k \<noteq> tid \<longrightarrow> \<not> in_flight (tasks s ! k)))"
  by (auto simp: sole_flight_def list_all_iff)

lemma sole_flight_step:
  assumes "sole_flight tid s"
  shows "sole_flight tid (step e s)"
proof -
  from assms have tid: "tid < length (tasks s)" by (simp add: sole_flight_iff)
  with length_tasks_step[of s e] have tid': "tid < length (tasks (step e s))" by simp
  have "queued (step e s) \<and> (\<forall>k<length (tasks (step e s)). k \<noteq> tid \<longrightarrow> \<not> in_flight (tasks (step e s) ! k))"
    if fl: "in_flight (tasks (step e s) ! tid)"
  proof -
    from in_flight_step[OF tid fl] assms
    have q: "queued s" and others: "\<And>k. k < length (tasks s) \<Longrightarrow> k \<noteq> tid \<Longrightarrow> \<not> in_flight (tasks s ! k)"
      by (auto simp: sole_flight_iff)
    have len: "length (tasks (step e s)) = length (tasks s)"
      using q by (rule length_tasks_queued)
    have "queued (step e s)"
    proof (rule ccontr)
      assume "\<not> queued (step e s)"
      from queued_step[OF q this] obtain k where
        k: "k < length (tasks s)" "in_flight (tasks s ! k)" "\<not> in_flight (tasks (step e s) ! k)"
        by blast
      with others fl show False by (cases "k = tid") auto
    qed
    moreover have "\<not> in_flight (tasks (step e s) ! k)" if "k < length (tasks (step e s))" "k \<noteq> tid" for k
      using that others[of k] in_flight_step[of k s e] len by auto
    ultimately show ?thesis by blast
  qed
  with tid' show ?thesis by (simp add: sole_flight_iff)
qed

lemma sole_flight_run: "sole_flight tid s \<Longrightarrow> sole_flight tid (run es s)"
  by (induction es arbitrary: s) (simp_all add: sole_flight_step)

lemma filter_single:
  assumes "i < length xs" "P (xs ! i)" "\<forall>k<length xs. k \<noteq> i \<longrightarrow> \<not> P (xs ! k)"
  shows "length (filter P xs) = 1"
proof -
  have xs: "xs = take i xs @ xs ! i # drop (Suc i) xs"
    using assms(1) by (rule id_take_nth_drop)
  have "filter P (take i xs) = []"
    using assms by (auto simp: filter_empty_conv in_set_conv_nth)
  moreover have "filter P (drop (Suc i) xs) = []"
    using assms by (auto simp: filter_empty_conv in_set_conv_nth)
  ultimately have "filter P (take i xs @ xs ! i # drop (Suc i) xs) = [xs ! i]"
    using assms(2) by simp
  with xs show ?thesis by (metis length_Cons list.size(3) One_nat_def)
qed

lemma idle_submit:
  assumes "idle s0" "\<not> connected s0"
  shows "sole_flight (length (tasks s0)) (step (BuildEnd 0) s0)"
  using assms
  by (auto simp: idle_def sole_flight_iff onEnd_def nth_append list_all_length)

text \<open>
  C1, as stated, fails when the first build result is submitted with a connection: the
  assignment \<^verbatim>\<open>queued = true\<close> stands inside the branch taken without a connection, so
  the flag is not set, the second submission is accepted too, and two push sequences are
  in flight.
\<close>

theorem overlap_when_connected_counterexample:
  "length (filter in_flight (tasks (run [BuildEnd 0, BuildEnd 0] (init ''dist'' [] True None)))) = 2
   \<and> \<not> queued (step (BuildEnd 0) (init ''dist'' [] True None))"
  by (simp add: run_defs)

text \<open>
  With a connection, a submission that is accepted leaves \<^verbatim>\<open>queued\<close> false, so the
  next submission is accepted as well, whatever the state was.
\<close>

lemma accepted_twice_with_connection:
  assumes "\<not> queued s" and "connected s"
  shows "\<not> queued (step (BuildEnd 0) s)
       \<and> tasks (run [BuildEnd 0, BuildEnd 0] s) = tasks s @ [new_task ReadDir, new_task ReadDir]"
  using assms by (simp add: onEnd_def)

text \<open>
  C1, amended. A build result without errors is submitted to a plugin at rest that has
  no connection. Then \<^verbatim>\<open>queued\<close> is set by the time the handler first suspends, and for
  every sequence of events after the submission: as long as the push sequence of that
  submission has not ended, \<^verbatim>\<open>queued\<close> is set, that sequence is the only one in flight,
  and any further submission leaves the state as it is (it is dropped, and nothing of it
  is kept for a later replay).
\<close>

theorem single_flight_without_connection:
  assumes "idle s0" and "\<not> connected s0"
  shows "queued (step (BuildEnd 0) s0) \<and>
         (in_flight (tasks (run es (step (BuildEnd 0) s0)) ! length (tasks s0)) \<longrightarrow>
            queued (run es (step (BuildEnd 0) s0)) \<and>
            length (filter in_flight (tasks (run es (step (BuildEnd 0) s0)))) = 1 \<and>
            step (BuildEnd n) (run es (step (BuildEnd 0) s0)) = run es (step (BuildEnd 0) s0))"
proof -
  let ?s = "run es (step (BuildEnd 0) s0)"
  have sf: "sole_flight (length (tasks s0)) ?s"
    using idle_submit[OF assms] by (rule sole_flight_run)
  have "queued (step (BuildEnd 0) s0)"
    using assms by (simp add: onEnd_def idle_def)
  moreover have "queued ?s \<and> length (filter in_flight (tasks ?s)) = 1 \<and> step (BuildEnd n) ?s = ?s"
    if fl: "in_flight (tasks ?s ! length (tasks s0))"
  proof -
    from sf fl have q: "queued ?s"
      and o: "\<forall>k<length (tasks ?s). k \<noteq> length (tasks s0) \<longrightarrow> \<not> in_flight (tasks ?s ! k)"
      and l: "length (tasks s0) < length (tasks ?s)"
      by (auto simp: sole_flight_iff)
    from filter_single[OF l fl o] q show ?thesis by (simp add: onEnd_def)
  qed
  ultimately show ?thesis by blast
qed

theorem single_flight_witness:
  "idle (init ''dist'' [] False None) \<and> \<not> connected (init ''dist'' [] False None)
   \<and> in_flight (tasks (run [BuildEnd 0, ClientConnected, BuildEnd 0] (step (BuildEnd 0) (init ''dist'' [] False None))) ! 0)
   \<and> length (filter in_flight (tasks (run [BuildEnd 0, ClientConnected, BuildEnd 0] (step (BuildEnd 0) (init ''dist'' [] False None))))) = 1"
  using single_flight_without_connection [of "init ''dist'' [] False None" "[BuildEnd 0, ClientConnected, BuildEnd 0]" 0]
  by (simp add: run_defs)

section \<open>Release of the gate\<close>

lemma gate_inv_submit:
  "idle s0 \<Longrightarrow> gate_inv (connected s0) (length (tasks s0)) (step (BuildEnd 0) s0)"
  by (auto simp: idle_def gate_inv_def onEnd_def task_wf_def new_task_def costed_def)

lemma list_all_replicate: "list_all P (replicate n x) \<longleftrightarrow> n = 0 \<or> P x"
  by (induction n) auto

lemma pending_not_all: "i < length cs \<Longrightarrow> cs ! i = CostPending \<Longrightarrow> \<not> list_all (\<lambda>c. c = CostDone) cs"
  by (auto simp: list_all_length)

lemma failed_not_all: "CostFailed \<in> set cs \<Longrightarrow> \<not> list_all (\<lambda>c. c = CostDone) cs"
  by (auto simp: list_all_iff)

lemma failed_kept: "CostFailed \<in> set cs \<Longrightarrow> cs ! i = CostPending \<Longrightarrow> CostFailed \<in> set (cs[i := x])"
  by (metis cost_status.distinct(3) in_set_conv_nth length_list_update nth_list_update_neq)

lemma failed_absent: "CostFailed \<notin> set cs \<Longrightarrow> CostFailed \<notin> set (cs[i := CostDone])"
  using set_update_subset_insert[of cs i CostDone] by auto

lemma cost_settled_task:
  assumes wf: "task_wf t" and i: "i < length (costs t)" "costs t ! i = CostPending"
  shows "\<not> costed t"
    and "phase t = Costing \<or> (phase t = Failed \<and> CostFailed \<in> set (costs t))"
proof -
  show "\<not> costed t" using i by (auto simp: costed_def all_costed_def pending_not_all)
  then show "phase t = Costing \<or> (phase t = Failed \<and> CostFailed \<in> set (costs t))"
    using wf i by (cases "phase t") (auto simp: task_wf_def)
qed

lemma gate_inv_step:
  assumes "gate_inv c tid s" "\<not> submission e"
  shows "gate_inv c tid (step e s)"
proof -
  from assms(1) have len: "length (tasks s) = Suc tid"
    and others: "\<And>k. k < tid \<Longrightarrow> \<not> in_flight (tasks s ! k)"
    and wf: "task_wf (tasks s ! tid)"
    and q: "queued s = (\<not> c \<and> \<not> costed (tasks s ! tid))"
    by (auto simp: gate_inv_def list_all_length)
  have len': "length (tasks (step e s)) = Suc tid"
    using assms(2) len by (cases e) (auto simp: handler_defs submission_def split: sum.splits)
  have others': "\<not> in_flight (tasks (step e s) ! k)" if "k < tid" for k
    using in_flight_step[of k s e] others[OF that] that len by auto
  have main: "task_wf (tasks (step e s) ! tid) \<and>
        queued (step e s) = (\<not> c \<and> \<not> costed (tasks (step e s) ! tid))"
  proof (cases e)
    case BuildStart then show ?thesis using wf q by simp
  next
    case (BuildWrite x) then show ?thesis using wf q by simp
  next
    case (BuildEnd n) then show ?thesis using assms(2) by (simp add: submission_def)
  next
    case ClientConnected
    then show ?thesis using wf q len
      by (auto simp: client_connected_task resume_def task_wf_def costed_def all_costed_def
          split: phase.splits)
  next
    case ClientDisconnected then show ?thesis using wf q by simp
  next
    case (ReaddirDone k)
    then show ?thesis using wf q len
      by (auto simp: readdir_done_def start_pushes_def task_wf_def costed_def all_costed_def nth_list_update
          split: phase.splits sum.splits)
  next
    case (ReadFileDone k i ok)
    then show ?thesis using wf q len
      by (auto simp: read_file_done_def reject_push_def task_wf_def costed_def all_costed_def nth_list_update
          split: phase.splits)
  next
    case (PushSettled k i ok)
    then show ?thesis using wf q len
      by (auto simp: push_settled_def start_costs_def reject_push_def task_wf_def costed_def
          all_costed_def nth_list_update list_all_replicate split: phase.splits)
  next
    case (CostSettled k i ok)
    show ?thesis
    proof (cases "k < length (tasks s) \<and> i < length (costs (tasks s ! k)) \<and> costs (tasks s ! k) ! i = CostPending")
      case False
      with CostSettled wf q show ?thesis by (auto simp: cost_settled_def)
    next
      case guard: True
      show ?thesis
      proof (cases "k = tid")
        case False
        with guard len have "k < tid" by simp
        from others[OF this] have "phase (tasks s ! k) \<noteq> Costing" by (auto simp: in_flight_def)
        with CostSettled guard False wf q len show ?thesis
          by (simp add: cost_settled_def finish_costs_def reject_cost_def)
      next
        case True
        note ct = cost_settled_task[OF wf guard[unfolded True, THEN conjunct2, THEN conjunct1]
            guard[unfolded True, THEN conjunct2, THEN conjunct2]]
        show ?thesis
        proof (cases ok)
          case False
          with CostSettled guard True q ct len show ?thesis
            by (auto simp: cost_settled_def reject_cost_def task_wf_def costed_def all_costed_def
                failed_not_all set_update_memI)
        next
          case ok: True
          from ct(2) show ?thesis
          proof
            assume "phase (tasks s ! tid) = Costing"
            with wf have "costs (tasks s ! tid) \<noteq> []" "CostFailed \<notin> set (costs (tasks s ! tid))"
              by (auto simp: task_wf_def)
            with CostSettled guard True q ct(1) len ok \<open>phase (tasks s ! tid) = Costing\<close> show ?thesis
              by (auto simp: cost_settled_def finish_costs_def task_wf_def costed_def all_costed_def
                  failed_absent split: sum.splits)
          next
            assume "phase (tasks s ! tid) = Failed \<and> CostFailed \<in> set (costs (tasks s ! tid))"
            with CostSettled guard True q ct(1) len ok show ?thesis
              by (auto simp: cost_settled_def finish_costs_def task_wf_def costed_def all_costed_def
                  failed_kept failed_not_all)
          qed
        qed
      qed
    qed
  next
    case (HooksSettled k)
    then show ?thesis using wf q len
      by (auto simp: hooks_settled_def task_wf_def costed_def all_costed_def nth_list_update
          split: phase.splits)
  qed
  show ?thesis
    using len' others' main by (auto simp: gate_inv_def list_all_length)
qed


lemma gate_inv_run:
  "gate_inv c tid s \<Longrightarrow> list_all (\<lambda>e. \<not> submission e) es \<Longrightarrow> gate_inv c tid (run es s)"
  by (induction es arbitrary: s) (simp_all add: gate_inv_step)

text \<open>
  A build result without errors is submitted to a plugin at rest, and no other build
  result is submitted after it. Then \<^verbatim>\<open>queued\<close> is false once every \<^verbatim>\<open>calculateRAM\<close>
  call of the submission has fulfilled, whether the \<^verbatim>\<open>afterBuild\<close> hooks then succeed or
  throw, and so it is while the handler awaits the hooks and after it has returned from
  them; it is false throughout when there was a connection at the submission, as the
  flag is then never set.
\<close>

lemma gate_released_after_cost_stage:
  assumes "idle s0" and "list_all (\<lambda>e. \<not> submission e) es"
  shows "(connected s0 \<longrightarrow> \<not> queued (run es (step (BuildEnd 0) s0))) \<and>
         (costed (tasks (run es (step (BuildEnd 0) s0)) ! length (tasks s0)) \<longrightarrow>
            \<not> queued (run es (step (BuildEnd 0) s0))) \<and>
         (phase (tasks (run es (step (BuildEnd 0) s0)) ! length (tasks s0)) \<in> {Hooks, Finished} \<longrightarrow>
            \<not> queued (run es (step (BuildEnd 0) s0)))"
proof -
  have "gate_inv (connected s0) (length (tasks s0)) (run es (step (BuildEnd 0) s0))"
    using gate_inv_submit[OF assms(1)] assms(2) by (rule gate_inv_run)
  then show ?thesis
    by (auto simp: gate_inv_def task_wf_def)
qed

lemma gate_released_example:
  "idle (init ''dist'' [] False (Some [\<lparr>file_name = ''a.js'', file_path = ''dist/home'', isFile = True\<rparr>]))
   \<and> phase (tasks (run [ClientConnected, ReaddirDone 0, ReadFileDone 0 0 True, PushSettled 0 0 True, CostSettled 0 0 True]
        (step (BuildEnd 0) (init ''dist'' [] False (Some [\<lparr>file_name = ''a.js'', file_path = ''dist/home'', isFile = True\<rparr>])))) ! 0) = Hooks
   \<and> \<not> queued (run [ClientConnected, ReaddirDone 0, ReadFileDone 0 0 True, PushSettled 0 0 True, CostSettled 0 0 True]
        (step (BuildEnd 0) (init ''dist'' [] False (Some [\<lparr>file_name = ''a.js'', file_path = ''dist/home'', isFile = True\<rparr>]))))"
  using gate_released_after_cost_stage [of "init ''dist'' [] False (Some [\<lparr>file_name = ''a.js'', file_path = ''dist/home'', isFile = True\<rparr>])"
    "[ClientConnected, ReaddirDone 0, ReadFileDone 0 0 True, PushSettled 0 0 True, CostSettled 0 0 True]"]
  by (simp add: run_defs submission_def)

text \<open>
  Without a connection the handler sets \<^verbatim>\<open>queued\<close>. When a push then rejects, the
  rejection leaves the handler before the assignment \<^verbatim>\<open>queued = false\<close>, and the flag
  stays set.
\<close>

lemma gate_stuck_after_push_failure:
  "queued (run [BuildEnd 0, ClientConnected, ReaddirDone 0, ReadFileDone 0 0 True, PushSettled 0 0 False]
             (init ''dist'' [] False (Some [\<lparr>file_name = ''a.js'', file_path = ''dist/home'', isFile = True\<rparr>])))
   \<and> phase (tasks (run [BuildEnd 0, ClientConnected, ReaddirDone 0, ReadFileDone 0 0 True, PushSettled 0 0 False]
             (init ''dist'' [] False (Some [\<lparr>file_name = ''a.js'', file_path = ''dist/home'', isFile = True\<rparr>]))) ! 0) = Failed"
  by (simp add: run_defs)

text \<open>
  C2. The claim is that \<^verbatim>\<open>queued\<close> is false after every accepted submission has run
  to its end, the end on an empty file list included. The \<^verbatim>\<open>return\<close> on an empty file
  list stands before the assignment \<^verbatim>\<open>queued = false\<close>: a build result is submitted
  without a connection, the client connects, and \<^verbatim>\<open>readdir\<close> finds the output directory
  empty. The handler has then returned with \<^verbatim>\<open>queued\<close> still set, and the next
  submission is dropped.
\<close>

theorem gate_stuck_after_empty_output:
  "queued (run [BuildEnd 0, ClientConnected, ReaddirDone 0] (init ''dist'' [] False (Some [])))
   \<and> phase (tasks (run [BuildEnd 0, ClientConnected, ReaddirDone 0] (init ''dist'' [] False (Some []))) ! 0) = NoFiles
   \<and> step (BuildEnd 0) (run [BuildEnd 0, ClientConnected, ReaddirDone 0] (init ''dist'' [] False (Some [])))
       = run [BuildEnd 0, ClientConnected, ReaddirDone 0] (init ''dist'' [] False (Some []))"
  by (simp add: run_defs)

section \<open>Suspension until the client connects\<close>











text \<open>
  The handler lists the output directory when it resumes. If a later build has
  rewritten the directory while the first waited (its own submission being dropped),
  the files pushed are those of the later build.
\<close>

lemma later_build_output_pushed:
  "calls (run [BuildEnd 0, BuildStart,
               BuildWrite [\<lparr>file_name = ''b.js'', file_path = ''dist/home'', isFile = True\<rparr>],
               BuildEnd 0, ClientConnected, ReaddirDone 0, ReadFileDone 0 0 True]
            (init ''dist'' [] False
               (Some [\<lparr>file_name = ''a.js'', file_path = ''dist/home'', isFile = True\<rparr>])))
     = [PushFile 0 \<lparr>server = ''home'', filename = ''b.js'', path = ''dist/home/b.js''\<rparr>]"
  by (simp add: run_defs)

text \<open>
  A hook \<^verbatim>\<open>afterConnect\<close> that throws when called leaves the emission of
  \<^verbatim>\<open>client-connected\<close> before the listener of the waiting task is reached: the task goes
  on waiting and \<^verbatim>\<open>queued\<close> stays set.
\<close>

lemma waiter_not_reached_when_hook_throws:
  "phase (tasks (run [BuildEnd 0, ClientConnected]
             (init ''dist'' [Map.empty(AfterConnect \<mapsto> Throws)] False (Some []))) ! 0) = WaitClient
   \<and> queued (run [BuildEnd 0, ClientConnected]
             (init ''dist'' [Map.empty(AfterConnect \<mapsto> Throws)] False (Some [])))"
  by (simp add: run_defs)




section \<open>Barriers between the stages\<close>

lemma all_pushed_no_pending:
  "all_pushed t \<Longrightarrow> i < length (pushes t) \<Longrightarrow> pushes t ! i = PushDone"
  by (simp add: all_pushed_def list_all_length)

lemma all_costed_no_pending:
  "all_costed t \<Longrightarrow> i < length (costs t) \<Longrightarrow> costs t ! i = CostDone"
  by (simp add: all_costed_def list_all_length)

lemma staged_step:
  assumes "list_all staged (tasks s)"
  shows "list_all staged (tasks (step e s))"
proof -
  have upd: "list_all staged ((tasks s)[k := t])" if "staged t" for k t
    using assms that set_update_subset_insert[of "tasks s" k t] by (auto simp: list_all_iff)
  have nth: "staged (tasks s ! k)" if "k < length (tasks s)" for k
    using assms that by (simp add: list_all_length)
  show ?thesis
  proof (cases e)
    case (BuildEnd n)
    then show ?thesis using assms by (auto simp: onEnd_def staged_def new_task_def)
  next
    case ClientConnected
    then show ?thesis using assms
      by (auto simp: client_connected_def list_all_iff resume_def staged_def)
  next
    case (ReaddirDone k)
    then show ?thesis using assms nth[of k]
      by (auto intro!: upd simp: readdir_done_def staged_def start_pushes_def split: sum.splits)
  next
    case (ReadFileDone k i ok)
    then show ?thesis using assms nth[of k]
      by (auto intro!: upd simp: read_file_done_def staged_def reject_push_def)
  next
    case (PushSettled k i ok)
    then show ?thesis using assms nth[of k]
      by (auto intro!: upd simp: push_settled_def start_costs_def staged_def reject_push_def)
  next
    case (CostSettled k i ok)
    then show ?thesis using assms nth[of k]
      by (auto intro!: upd simp: cost_settled_def finish_costs_def staged_def reject_cost_def
          split: sum.splits)
  next
    case (HooksSettled k)
    then show ?thesis using assms nth[of k]
      by (auto intro!: upd simp: hooks_settled_def staged_def)
  qed (use assms in auto)
qed

text \<open>A call whose barrier holds keeps it under every step.\<close>

lemma barrier_ok_step:
  assumes "barrier_ok s c"
  shows "barrier_ok (step e s) c"
proof (cases c)
  case (PushFile tid d)
  then show ?thesis by (simp add: barrier_ok_def)
next
  case (CalculateRAM tid d)
  with assms have tid: "tid < length (tasks s)"
    and ph: "phase (tasks s ! tid) \<in> {Costing, Hooks, Finished, Failed}"
    and ap: "all_pushed (tasks s ! tid)"
    and len: "length (pushes (tasks s ! tid)) = length (files (tasks s ! tid))"
    by (auto simp: barrier_ok_def)
  have "tid < length (tasks (step e s))"
    using tid length_tasks_step[of s e] by simp
  moreover have "phase (tasks (step e s) ! tid) \<in> {Costing, Hooks, Finished, Failed}
        \<and> pushes (tasks (step e s) ! tid) = pushes (tasks s ! tid)
        \<and> files (tasks (step e s) ! tid) = files (tasks s ! tid)"
    using tid ph all_pushed_no_pending[OF ap]
    by (cases e)
       (auto simp: handler_defs nth_list_update nth_append resume_def start_pushes_def
          reject_push_def reject_cost_def split: sum.splits if_splits)
  ultimately show ?thesis using ap len CalculateRAM by (simp add: barrier_ok_def all_pushed_def)
next
  case (DispatchAfterBuild tid)
  with assms have tid: "tid < length (tasks s)"
    and ph: "phase (tasks s ! tid) \<in> {Hooks, Finished, Failed}"
    and ac: "all_costed (tasks s ! tid)"
    and len: "length (costs (tasks s ! tid)) = length (files (tasks s ! tid))"
    by (auto simp: barrier_ok_def)
  have "tid < length (tasks (step e s))"
    using tid length_tasks_step[of s e] by simp
  moreover have "phase (tasks (step e s) ! tid) \<in> {Hooks, Finished, Failed}
        \<and> files (tasks (step e s) ! tid) = files (tasks s ! tid)
        \<and> costs (tasks (step e s) ! tid) = costs (tasks s ! tid)"
    using tid ph all_costed_no_pending[OF ac]
    by (cases e)
       (auto simp: handler_defs nth_list_update nth_append resume_def start_pushes_def
          reject_push_def reject_cost_def split: sum.splits if_splits)
  ultimately show ?thesis using ac len DispatchAfterBuild
    by (simp add: barrier_ok_def all_costed_def)
qed

text \<open>A call that a step adds has its barrier in the state after the step.\<close>

lemma new_calls_step:
  assumes "list_all staged (tasks s)"
  shows "\<exists>new. calls (step e s) = calls s @ new \<and> list_all (barrier_ok (step e s)) new"
proof -
  have nth: "staged (tasks s ! k)" if "k < length (tasks s)" for k
    using assms that by (simp add: list_all_length)
  show ?thesis
  proof (cases e)
    case (ReadFileDone tid i ok)
    then show ?thesis by (auto simp: read_file_done_def barrier_ok_def)
  next
    case (PushSettled tid i ok)
    then show ?thesis using nth[of tid]
      by (auto simp: push_settled_def start_costs_def barrier_ok_def list_all_iff all_pushed_def
          staged_def)
  next
    case (CostSettled tid i ok)
    then show ?thesis using nth[of tid]
      by (auto simp: cost_settled_def finish_costs_def barrier_ok_def all_costed_def staged_def
          split: sum.splits)
  qed (auto simp: handler_defs split: sum.splits)
qed

lemma barriers_step: "barriers s \<Longrightarrow> barriers (step e s)"
proof -
  assume b: "barriers s"
  then have st: "list_all staged (tasks s)" and ok: "list_all (barrier_ok s) (calls s)"
    by (simp_all add: barriers_def)
  from new_calls_step[OF st, of e] obtain new where
    new: "calls (step e s) = calls s @ new" "list_all (barrier_ok (step e s)) new" by blast
  have "list_all (barrier_ok (step e s)) (calls s)"
    using ok barrier_ok_step[of s _ e] by (auto simp: list_all_iff)
  with new staged_step[OF st, of e] show ?thesis by (simp add: barriers_def)
qed

lemma barriers_run: "barriers s \<Longrightarrow> barriers (run es s)"
  by (induction es arbitrary: s) (simp_all add: barriers_step)

text \<open>
  C8. In every state the plugin reaches from its initial state, every \<^verbatim>\<open>calculateRAM\<close>
  call made so far belongs to a task whose \<^verbatim>\<open>pushFile\<close> calls, one for each of its files,
  have all fulfilled, and every dispatch of \<^verbatim>\<open>afterBuild\<close> made so far belongs to a task
  whose \<^verbatim>\<open>calculateRAM\<close> calls, one for each of its files, have all fulfilled. As this
  holds in the state in which a call has just been made, no \<^verbatim>\<open>calculateRAM\<close> call is made
  before every push of its cycle has settled, and no dispatch before every cost has.
\<close>

theorem stage_barriers:
  "barriers (run es (init dir exts conn d))"
  by (rule barriers_run) (simp add: barriers_def init_def)

theorem stage_barriers_witness:
  "barriers (run [BuildEnd 0, ReaddirDone 0, ReadFileDone 0 0 True, PushSettled 0 0 True,
                  CostSettled 0 0 True, HooksSettled 0]
       (init ''dist'' [] True (Some [\<lparr>file_name = ''a.js'', file_path = ''dist/home'', isFile = True\<rparr>])))
   \<and> calls (run [BuildEnd 0, ReaddirDone 0, ReadFileDone 0 0 True, PushSettled 0 0 True,
                  CostSettled 0 0 True, HooksSettled 0]
       (init ''dist'' [] True (Some [\<lparr>file_name = ''a.js'', file_path = ''dist/home'', isFile = True\<rparr>])))
     = [PushFile 0 \<lparr>server = ''home'', filename = ''a.js'', path = ''dist/home/a.js''\<rparr>,
        CalculateRAM 0 \<lparr>server = ''home'', filename = ''a.js'', path = ''dist/home/a.js''\<rparr>,
        DispatchAfterBuild 0]"
  using stage_barriers [of "[BuildEnd 0, ReaddirDone 0, ReadFileDone 0 0 True, PushSettled 0 0 True,
                  CostSettled 0 0 True, HooksSettled 0]" "''dist''" "[]" True
       "Some [\<lparr>file_name = ''a.js'', file_path = ''dist/home'', isFile = True\<rparr>]"]
  by (simp add: run_defs)

end
